theory Spec2Isabelle
  imports Main
begin

section \<open>IncrementalGroupContext\<close>

text \<open>
  The value carried by \<open>IncrementalGroupContext\<close>. The context itself is
  \<open>createContext<IncrementalGroupContextType | null>(null)\<close>: a consumer reads
  \<open>None\<close> when no provider encloses it. JavaScript numbers are modelled as
  unbounded integers (the counters here only ever hold small integers).
\<close>

record IncrementalGroupContextType =
  enabled :: bool
  groupId :: string
  incrementalCount :: int

section \<open>String conversion of numbers and of undefined\<close>

definition digit :: "nat \<Rightarrow> char" where
  "digit d = ''0123456789'' ! d"

fun digits :: "nat \<Rightarrow> string" where
  "digits n = (if n < 10 then [digit n] else digits (n div 10) @ [digit (n mod 10)])"

declare digits.simps [simp del]

text \<open>What string concatenation makes of an integer-valued number.\<close>

definition number_toString :: "int \<Rightarrow> string" where
  "number_toString i = (if i < 0 then CHR ''-'' # digits (nat (- i)) else digits (nat i))"

text \<open>What string concatenation makes of a \<open>string | undefined\<close>.\<close>

definition string_or_undefined :: "string option \<Rightarrow> string" where
  "string_or_undefined s = (case s of None \<Rightarrow> ''undefined'' | Some v \<Rightarrow> v)"

section \<open>Incremental\<close>

text \<open>
  A callback is identified by a number; invoking it is recorded in the list of effects
  an operation returns. \<open>onDone\<close> is optional: \<open>onDone?.()\<close> does nothing
  when it is undefined.
\<close>

type_synonym callback = nat

datatype effect =
    RunAfterInteractions string
  | CallOnDone callback
  | Rethrow string

definition call_optional :: "callback option \<Rightarrow> effect list" where
  "call_optional onDone = (case onDone of None \<Rightarrow> [] | Some cb \<Rightarrow> [CallOnDone cb])"

text \<open>The cells of one instance that survive re-evaluation: the state and the three refs.\<close>

record Incremental_hooks =
  doIncrementalRender :: bool
  incrementalIdRef :: int
  mountedRef :: bool
  renderedRef :: bool

text \<open>\<open>context?.enabled\<close> is falsy when the context is null.\<close>

definition context_enabled :: "IncrementalGroupContextType option \<Rightarrow> bool" where
  "context_enabled context = (case context of None \<Rightarrow> False | Some c \<Rightarrow> enabled c)"

text \<open>
  The body of the component (lines 75-80 and 129-138). \<open>None\<close> for the cells is the
  first evaluation, where \<open>useState\<close> and \<open>useRef\<close> take their initial values;
  later evaluations keep the cells. The result is the new cells and whether the children
  are returned (\<open>True\<close>) or \<open>null\<close> (\<open>False\<close>).
\<close>

definition Incremental ::
  "IncrementalGroupContextType option \<Rightarrow> Incremental_hooks option \<Rightarrow> Incremental_hooks \<times> bool" where
  "Incremental context cells =
     (let incrementalId = (case context of None \<Rightarrow> 0 | Some c \<Rightarrow> incrementalCount c) + 1;
          h = (case cells of
                 None \<Rightarrow> \<lparr>doIncrementalRender = False, incrementalIdRef = incrementalId,
                           mountedRef = False, renderedRef = False\<rparr>
               | Some h0 \<Rightarrow> h0)
      in if renderedRef h \<or> \<not> context_enabled context \<or> doIncrementalRender h
         then (h\<lparr>renderedRef := True\<rparr>, True)
         else (h, False))"

text \<open>\<open>getName\<close> (lines 82-84), with the context and name of the closure it lives in.\<close>

definition getName ::
  "IncrementalGroupContextType option \<Rightarrow> string option \<Rightarrow> Incremental_hooks \<Rightarrow> string" where
  "getName context name h =
     string_or_undefined (map_option groupId context) @ '':''
       @ number_toString (incrementalIdRef h) @ ''-'' @ string_or_undefined name"

text \<open>The first effect (lines 86-116) up to the submission of the task.\<close>

definition effect_submit ::
  "IncrementalGroupContextType option \<Rightarrow> string option \<Rightarrow> Incremental_hooks \<Rightarrow> effect list" where
  "effect_submit context name h =
     (if context = None then []
      else [RunAfterInteractions (''Incremental:'' @ getName context name h)])"

text \<open>The \<open>gen\<close> of the submitted task (lines 92-101).\<close>

definition gen :: "Incremental_hooks \<Rightarrow> Incremental_hooks" where
  "gen h = (if \<not> mountedRef h \<or> renderedRef h then h else h\<lparr>doIncrementalRender := True\<rparr>)"

text \<open>The \<open>then\<close> callback (lines 103-108).\<close>

definition on_fulfilled :: "callback option \<Rightarrow> Incremental_hooks \<Rightarrow> effect list" where
  "on_fulfilled onDone h = (if mountedRef h then call_optional onDone else [])"

text \<open>The \<open>catch\<close> callback (lines 109-114): the message is rewritten and the error thrown again.\<close>

definition on_rejected ::
  "IncrementalGroupContextType option \<Rightarrow> string option \<Rightarrow> Incremental_hooks \<Rightarrow> string \<Rightarrow> effect list" where
  "on_rejected context name h message =
     [Rethrow (''Incremental render failed for '' @ getName context name h @ '': '' @ message)]"

text \<open>The second effect (lines 118-122) and its cleanup (lines 123-125).\<close>

definition effect_mounted ::
  "IncrementalGroupContextType option \<Rightarrow> callback option \<Rightarrow> Incremental_hooks
     \<Rightarrow> Incremental_hooks \<times> effect list" where
  "effect_mounted context onDone h =
     (h\<lparr>mountedRef := True\<rparr>, if context = None then call_optional onDone else [])"

definition cleanup :: "Incremental_hooks \<Rightarrow> Incremental_hooks" where
  "cleanup h = h\<lparr>mountedRef := False\<rparr>"

subsection \<open>The lifetime of one instance\<close>

text \<open>
  What the host does with an instance: it evaluates the component once and runs both
  effects (the mount pass), then it may evaluate it again with whatever context is
  current, the interaction queue may run the submitted task, the task's promise may
  settle, and the instance may be unmounted. Both effects have an empty dependency list,
  so they run once and their callbacks keep the context, name and \<open>onDone\<close> of the
  mount pass. An unmounted instance is not evaluated again. The promise of the task
  settles after the queue has run the task; whether it is fulfilled or rejected, and
  with which message, is the host's to say, so a rejection stands for any failure of the
  queued step. A re-evaluation asked for by \<open>setDoIncrementalRender\<close> is one of the
  later evaluations, at the moment the host chooses.
\<close>

datatype task_state = NotSubmitted | Queued | Executed | Settled

datatype outcome = Resolved | Rejected string

datatype event =
    Render "IncrementalGroupContextType option"
  | RunTask
  | Settle outcome
  | Unmount

record chunk =
  hooks :: Incremental_hooks
  mount_context :: "IncrementalGroupContextType option"
  mount_name :: "string option"
  mount_onDone :: "callback option"
  task :: task_state
  children_rendered :: bool
  effects :: "effect list"

definition mount_pass ::
  "string option \<Rightarrow> callback option \<Rightarrow> IncrementalGroupContextType option \<Rightarrow> chunk" where
  "mount_pass name onDone context =
     (let (h1, out) = Incremental context None;
          e1 = effect_submit context name h1;
          (h2, e2) = effect_mounted context onDone h1
      in \<lparr>hooks = h2, mount_context = context, mount_name = name, mount_onDone = onDone,
          task = (if e1 = [] then NotSubmitted else Queued),
          children_rendered = out, effects = e1 @ e2\<rparr>)"

fun step :: "chunk \<Rightarrow> event \<Rightarrow> chunk" where
  "step w (Render context) =
     (if mountedRef (hooks w)
      then (let (h, out) = Incremental context (Some (hooks w))
            in w\<lparr>hooks := h, children_rendered := out\<rparr>)
      else w)"
| "step w RunTask =
     (if task w = Queued then w\<lparr>hooks := gen (hooks w), task := Executed\<rparr> else w)"
| "step w (Settle Resolved) =
     (if task w = Executed
      then w\<lparr>effects := effects w @ on_fulfilled (mount_onDone w) (hooks w), task := Settled\<rparr>
      else w)"
| "step w (Settle (Rejected message)) =
     (if task w = Executed
      then w\<lparr>effects := effects w @ on_rejected (mount_context w) (mount_name w) (hooks w) message,
             task := Settled\<rparr>
      else w)"
| "step w Unmount = w\<lparr>hooks := cleanup (hooks w)\<rparr>"

definition run :: "chunk \<Rightarrow> event list \<Rightarrow> chunk" where
  "run w es = foldl step w es"

text \<open>How often a callback was invoked, and which tasks were submitted.\<close>

definition calls :: "callback \<Rightarrow> effect list \<Rightarrow> nat" where
  "calls cb es = length (filter (\<lambda>e. e = CallOnDone cb) es)"

fun is_submission :: "effect \<Rightarrow> bool" where
  "is_submission (RunAfterInteractions n) = True"
| "is_submission e = False"

section \<open>IncrementalGroup\<close>

text \<open>
  The cells of one group instance: the ref holding its prefix, the callback kept by
  \<open>useCallback\<close> and the value kept by \<open>useMemo\<close> with the dependencies it was
  computed for. \<open>getGroupId\<close> closes over the context and the name of the evaluation
  that created it, and \<open>useCallback\<close> replaces it exactly when one of the two changes,
  so the callback is represented by the pair it closes over. Dependencies are compared by
  value; contexts are never mutated after they are published.
\<close>

record IncrementalGroup_hooks =
  groupIncRef :: string
  getGroupId_closure :: "IncrementalGroupContextType option \<times> string option"
  childContext_deps ::
    "bool option \<times> bool option \<times> (IncrementalGroupContextType option \<times> string option)"
  childContext_value :: IncrementalGroupContextType

text \<open>\<open>getGroupId\<close> (lines 38-41), reading the ref when it is called.\<close>

definition getGroupId ::
  "string \<Rightarrow> IncrementalGroupContextType option \<times> string option \<Rightarrow> string" where
  "getGroupId ref closure =
     (let prefix = (case fst closure of None \<Rightarrow> [] | Some c \<Rightarrow> groupId c @ '':'')
      in prefix @ ref @ string_or_undefined (snd closure))"

text \<open>
  One evaluation of the component (lines 29-62) with the module variable
  \<open>_groupCounter\<close> passed in and out. The argument of \<open>useRef\<close> is an expression,
  so \<open>++_groupCounter\<close> is evaluated at every evaluation; the ref keeps the value of
  the first one. The result is the counter, the cells and the context given to the
  provider.
\<close>

definition IncrementalGroup ::
  "int \<Rightarrow> string option \<Rightarrow> bool option \<Rightarrow> IncrementalGroupContextType option
     \<Rightarrow> IncrementalGroup_hooks option
     \<Rightarrow> int \<times> IncrementalGroup_hooks \<times> IncrementalGroupContextType" where
  "IncrementalGroup groupCounter name disabled context cells =
     (let groupCounter' = groupCounter + 1;
          initial = ''g'' @ number_toString groupCounter' @ ''-'';
          ref = (case cells of None \<Rightarrow> initial | Some h \<Rightarrow> groupIncRef h);
          getGroupId' =
            (case cells of
               None \<Rightarrow> (context, name)
             | Some h \<Rightarrow>
                 if getGroupId_closure h = (context, name) then getGroupId_closure h
                 else (context, name));
          deps = (map_option enabled context, disabled, getGroupId');
          computed =
            \<lparr>enabled = \<not> (disabled = Some True \<or> map_option enabled context = Some False),
             groupId = getGroupId ref getGroupId',
             incrementalCount = - 1\<rparr>;
          childContext =
            (case cells of
               None \<Rightarrow> computed
             | Some h \<Rightarrow> if childContext_deps h = deps then childContext_value h else computed)
      in (groupCounter',
          \<lparr>groupIncRef = ref, getGroupId_closure = getGroupId', childContext_deps = deps,
           childContext_value = childContext\<rparr>,
          childContext))"

text \<open>
  A group instance over time: its first evaluation followed by any number of further
  evaluations, each with the name, the disabled flag and the ambient context current at
  that moment.
\<close>

fun IncrementalGroup_evaluations ::
  "int \<Rightarrow> IncrementalGroup_hooks option
     \<Rightarrow> (string option \<times> bool option \<times> IncrementalGroupContextType option) list
     \<Rightarrow> int \<times> IncrementalGroup_hooks option" where
  "IncrementalGroup_evaluations groupCounter cells [] = (groupCounter, cells)"
| "IncrementalGroup_evaluations groupCounter cells ((name, disabled, context) # rest) =
     (case IncrementalGroup groupCounter name disabled context cells of
        (groupCounter', h, childContext) \<Rightarrow>
          IncrementalGroup_evaluations groupCounter' (Some h) rest)"

text \<open>
  The value kept by \<open>useMemo\<close> is the one computed from the dependencies it is kept
  for. It holds after every evaluation.
\<close>

definition memo_consistent :: "IncrementalGroup_hooks \<Rightarrow> bool" where
  "memo_consistent h =
     (childContext_value h =
        \<lparr>enabled = \<not> (fst (snd (childContext_deps h)) = Some True
                        \<or> fst (childContext_deps h) = Some False),
         groupId = getGroupId (groupIncRef h) (snd (snd (childContext_deps h))),
         incrementalCount = - 1\<rparr>)"

section \<open>IncrementalPresenter\<close>

text \<open>
  The caller's style is left abstract. A style property is either the caller's style
  alone or the array of the caller's style followed by the two overriding entries.
\<close>

datatype position = absolute | relative

record style_override =
  opacity :: int
  position :: position

datatype 'sty StyleProp =
    Style "'sty option"
  | StyleArray "'sty option" style_override

datatype 'sty presenter_effect =
    SetNativeProps "'sty StyleProp"
  | CallPresenterOnDone callback

text \<open>
  The two refs. \<open>viewRef\<close> is \<open>None\<close> while no view is attached and otherwise holds
  the style last given to the view through \<open>setNativeProps\<close> or by the evaluation.
\<close>

record 'sty IncrementalPresenter_hooks =
  isDoneRef :: bool
  viewRef :: "'sty StyleProp option"

text \<open>\<open>onDoneInternal\<close> (lines 35-44) of the evaluation whose props are given.\<close>

definition onDoneInternal ::
  "bool option \<Rightarrow> IncrementalGroupContextType option \<Rightarrow> 'sty option \<Rightarrow> callback option
     \<Rightarrow> 'sty IncrementalPresenter_hooks
     \<Rightarrow> 'sty IncrementalPresenter_hooks \<times> 'sty presenter_effect list" where
  "onDoneInternal disabled context style onDone h =
     (let h1 = h\<lparr>isDoneRef := True\<rparr>;
          (h2, e1) =
            (if disabled \<noteq> Some True \<and> map_option enabled context \<noteq> Some False
             then (case viewRef h1 of
                     None \<Rightarrow> (h1, [])
                   | Some view \<Rightarrow>
                       (h1\<lparr>viewRef := Some (StyleArray style \<lparr>opacity = 1, position = relative\<rparr>)\<rparr>,
                        [SetNativeProps (StyleArray style \<lparr>opacity = 1, position = relative\<rparr>)]))
             else (h1, []));
          e2 = (case onDone of None \<Rightarrow> [] | Some cb \<Rightarrow> [CallPresenterOnDone cb])
      in (h2, e1 @ e2))"

text \<open>
  The evaluation of the component (lines 31-33 and 46-58): the cells and the style given
  to the view.
\<close>

definition IncrementalPresenter ::
  "bool option \<Rightarrow> IncrementalGroupContextType option \<Rightarrow> 'sty option
     \<Rightarrow> 'sty IncrementalPresenter_hooks option
     \<Rightarrow> 'sty IncrementalPresenter_hooks \<times> 'sty StyleProp" where
  "IncrementalPresenter disabled context style cells =
     (let h = (case cells of None \<Rightarrow> \<lparr>isDoneRef = False, viewRef = None\<rparr> | Some h0 \<Rightarrow> h0);
          viewStyle =
            (if disabled \<noteq> Some True \<and> map_option enabled context \<noteq> Some False \<and> \<not> isDoneRef h
             then StyleArray style \<lparr>opacity = 0, position = absolute\<rparr>
             else Style style)
      in (h, viewStyle))"

text \<open>
  The view of line 54 is given \<open>ref={viewRef}\<close>: when the host mounts it, with the
  style of the evaluation that returned it, the ref holds it. The view is a child of the
  group's \<open>Incremental\<close>, so it is mounted only once that component returns its
  children.
\<close>

definition View_mounted ::
  "'sty StyleProp \<Rightarrow> 'sty IncrementalPresenter_hooks \<Rightarrow> 'sty IncrementalPresenter_hooks" where
  "View_mounted viewStyle h = h\<lparr>viewRef := Some viewStyle\<rparr>"

section \<open>Groups mounted in one process\<close>

text \<open>
  A mounted group instance: its cells, the name and the disabled flag it was last
  evaluated with, the context it publishes, and the group instances nested in it (the
  nearest enclosing group of each of them is this one).
\<close>

datatype group_instance =
  GroupInstance (group_cells: IncrementalGroup_hooks) (group_name: "string option")
    (group_disabled: "bool option") (group_published: IncrementalGroupContextType)
    (group_nested: "group_instance list")

text \<open>
  A re-evaluation of a mounted group under the ambient context it now has, followed by
  the re-evaluation of the groups nested in it under the context it now publishes. The
  counter is threaded through every evaluation.
\<close>

fun evaluate_group ::
  "int \<Rightarrow> IncrementalGroupContextType option \<Rightarrow> group_instance \<Rightarrow> int \<times> group_instance"
and evaluate_groups ::
  "int \<Rightarrow> IncrementalGroupContextType option \<Rightarrow> group_instance list
     \<Rightarrow> int \<times> group_instance list" where
  "evaluate_group groupCounter context (GroupInstance h name disabled published nested) =
     (case IncrementalGroup groupCounter name disabled context (Some h) of
        (groupCounter1, h1, childContext) \<Rightarrow>
          (case evaluate_groups groupCounter1 (Some childContext) nested of
             (groupCounter2, nested') \<Rightarrow>
               (groupCounter2, GroupInstance h1 name disabled childContext nested')))"
| "evaluate_groups groupCounter context [] = (groupCounter, [])"
| "evaluate_groups groupCounter context (g # gs) =
     (case evaluate_group groupCounter context g of
        (groupCounter1, g') \<Rightarrow>
          (case evaluate_groups groupCounter1 context gs of
             (groupCounter2, gs') \<Rightarrow> (groupCounter2, g' # gs')))"

text \<open>
  The first evaluation of a new group with the given props, which joins the siblings
  \<open>gs\<close> under their ambient context.
\<close>

definition mount_group ::
  "string option \<Rightarrow> bool option \<Rightarrow> IncrementalGroupContextType option \<Rightarrow> int
     \<Rightarrow> group_instance list \<Rightarrow> int \<times> group_instance list" where
  "mount_group name disabled context groupCounter gs =
     (case IncrementalGroup groupCounter name disabled context None of
        (groupCounter', h, childContext) \<Rightarrow>
          (groupCounter', gs @ [GroupInstance h name disabled childContext []]))"

text \<open>The sibling at index \<open>i\<close> gets new props and is evaluated again.\<close>

definition update_group ::
  "nat \<Rightarrow> string option \<Rightarrow> bool option \<Rightarrow> IncrementalGroupContextType option \<Rightarrow> int
     \<Rightarrow> group_instance list \<Rightarrow> int \<times> group_instance list" where
  "update_group i name disabled context groupCounter gs =
     (if i < length gs
      then (case evaluate_group groupCounter context
                   (GroupInstance (group_cells (gs ! i)) name disabled
                      (group_published (gs ! i)) (group_nested (gs ! i))) of
              (groupCounter', g') \<Rightarrow> (groupCounter', gs[i := g']))
      else (groupCounter, gs))"

text \<open>
  An operation on the groups nested in the group reached by a path of child indices
  from the top level, where no group encloses; a path that leads nowhere changes nothing.
\<close>

fun at_path ::
  "(IncrementalGroupContextType option \<Rightarrow> int \<Rightarrow> group_instance list
      \<Rightarrow> int \<times> group_instance list)
     \<Rightarrow> IncrementalGroupContextType option \<Rightarrow> nat list \<Rightarrow> int \<Rightarrow> group_instance list
     \<Rightarrow> int \<times> group_instance list" where
  "at_path f context [] groupCounter gs = f context groupCounter gs"
| "at_path f context (i # path) groupCounter gs =
     (if i < length gs
      then (case at_path f (Some (group_published (gs ! i))) path groupCounter
                   (group_nested (gs ! i)) of
              (groupCounter', nested') \<Rightarrow>
                (groupCounter',
                 gs[i := GroupInstance (group_cells (gs ! i)) (group_name (gs ! i))
                           (group_disabled (gs ! i)) (group_published (gs ! i)) nested']))
      else (groupCounter, gs))"

datatype group_event =
    MountGroup "nat list" "string option" "bool option"
  | UpdateGroup "nat list" nat "string option" "bool option"

fun group_step :: "int \<times> group_instance list \<Rightarrow> group_event \<Rightarrow> int \<times> group_instance list" where
  "group_step (groupCounter, roots) (MountGroup path name disabled) =
     at_path (mount_group name disabled) None path groupCounter roots"
| "group_step (groupCounter, roots) (UpdateGroup path i name disabled) =
     at_path (update_group i name disabled) None path groupCounter roots"

text \<open>The process starts with \<open>_groupCounter = -1\<close> and no group.\<close>

definition process :: "group_event list \<Rightarrow> int \<times> group_instance list" where
  "process events = foldl group_step (- 1, []) events"

fun scope_ids :: "group_instance \<Rightarrow> string list" where
  "scope_ids (GroupInstance h name disabled published nested) =
     groupId published # concat (map scope_ids nested)"

text \<open>
  What holds of every mounted group under its ambient context: its prefix is one of the
  values the counter has taken, its cells are those of an evaluation under this context
  with its props, it publishes the value of its memo, and the same holds of the groups
  nested in it, whose prefixes differ from one another.
\<close>

fun group_ok :: "int \<Rightarrow> IncrementalGroupContextType option \<Rightarrow> group_instance \<Rightarrow> bool" where
  "group_ok groupCounter context (GroupInstance h name disabled published nested) =
     (groupIncRef h \<in> (\<lambda>k. ''g'' @ number_toString k @ ''-'') ` {0..groupCounter}
      \<and> memo_consistent h
      \<and> childContext_deps h = (map_option enabled context, disabled, (context, name))
      \<and> published = childContext_value h
      \<and> (\<forall>g \<in> set nested. group_ok groupCounter (Some published) g)
      \<and> distinct (map (\<lambda>g. groupIncRef (group_cells g)) nested))"

definition groups_ok ::
  "int \<Rightarrow> IncrementalGroupContextType option \<Rightarrow> group_instance list \<Rightarrow> bool" where
  "groups_ok groupCounter context gs =
     ((\<forall>g \<in> set gs. group_ok groupCounter context g)
      \<and> distinct (map (\<lambda>g. groupIncRef (group_cells g)) gs))"

section \<open>Properties of Incremental\<close>

lemma run_Nil [simp]: "run w [] = w"
  by (simp add: run_def)

lemma run_Cons [simp]: "run w (e # es) = run (step w e) es"
  by (simp add: run_def)

lemma run_append: "run w (es @ es') = run (run w es) es'"
  by (simp add: run_def)

lemma step_closure:
  "mount_context (step w e) = mount_context w \<and> mount_name (step w e) = mount_name w
     \<and> mount_onDone (step w e) = mount_onDone w"
  by (induction w e rule: step.induct) (simp_all add: Let_def split: prod.splits)

lemma run_closure:
  "mount_context (run w es) = mount_context w \<and> mount_name (run w es) = mount_name w
     \<and> mount_onDone (run w es) = mount_onDone w"
  by (induction es arbitrary: w) (simp_all add: step_closure)

lemma Incremental_idRef:
  "incrementalIdRef (fst (Incremental context (Some h))) = incrementalIdRef h"
  by (simp add: Incremental_def Let_def)

lemma step_idRef: "incrementalIdRef (hooks (step w e)) = incrementalIdRef (hooks w)"
  by (induction w e rule: step.induct)
     (simp_all add: Incremental_def gen_def cleanup_def Let_def split: prod.splits)

lemma run_idRef: "incrementalIdRef (hooks (run w es)) = incrementalIdRef (hooks w)"
  by (induction es arbitrary: w) (simp_all add: step_idRef)

lemma step_settled:
  "task w = Settled \<Longrightarrow> task (step w e) = Settled \<and> effects (step w e) = effects w"
  by (induction w e rule: step.induct) (simp_all add: Let_def split: prod.splits)

lemma run_settled:
  "task w = Settled \<Longrightarrow> task (run w es) = Settled \<and> effects (run w es) = effects w"
  by (induction es arbitrary: w) (simp_all add: step_settled)

lemma step_effects_unsettled:
  "task (step w e) \<noteq> Settled \<Longrightarrow> effects (step w e) = effects w"
  by (induction w e rule: step.induct) (simp_all add: Let_def split: prod.splits if_splits)

lemma run_effects_unsettled:
  "task (run w es) \<noteq> Settled \<Longrightarrow> effects (run w es) = effects w"
proof (induction es arbitrary: w)
  case Nil
  show ?case by simp
next
  case (Cons e es)
  from Cons.prems have u: "task (run (step w e) es) \<noteq> Settled" by simp
  then have "task (step w e) \<noteq> Settled" using run_settled [of "step w e" es] by blast
  then have "effects (step w e) = effects w" by (rule step_effects_unsettled)
  with Cons.IH [OF u] show ?case by simp
qed

lemma step_mounted:
  "e \<noteq> Unmount \<Longrightarrow> mountedRef (hooks w) \<Longrightarrow> mountedRef (hooks (step w e))"
  by (induction w e rule: step.induct)
     (simp_all add: Incremental_def gen_def Let_def split: prod.splits)

lemma run_mounted:
  "Unmount \<notin> set es \<Longrightarrow> mountedRef (hooks w) \<Longrightarrow> mountedRef (hooks (run w es))"
  by (induction es arbitrary: w) (auto simp: step_mounted)

lemma step_unmounted:
  "\<not> mountedRef (hooks w) \<Longrightarrow> hooks (step w e) = hooks w"
  by (induction w e rule: step.induct) (simp_all add: gen_def cleanup_def)

lemma run_unmounted:
  "\<not> mountedRef (hooks w) \<Longrightarrow> hooks (run w es) = hooks w"
  by (induction es arbitrary: w) (simp_all add: step_unmounted)

lemma step_unmounted_calls:
  "\<not> mountedRef (hooks w) \<Longrightarrow> calls cb (effects (step w e)) = calls cb (effects w)"
  by (induction w e rule: step.induct)
     (simp_all add: on_fulfilled_def on_rejected_def calls_def)

lemma run_unmounted_calls:
  "\<not> mountedRef (hooks w) \<Longrightarrow> calls cb (effects (run w es)) = calls cb (effects w)"
  by (induction es arbitrary: w) (simp_all add: step_unmounted step_unmounted_calls)

lemma mount_pass_context:
  "mount_pass name onDone (Some c) =
     \<lparr>hooks = \<lparr>doIncrementalRender = False, incrementalIdRef = incrementalCount c + 1,
                mountedRef = True, renderedRef = \<not> enabled c\<rparr>,
      mount_context = Some c, mount_name = name, mount_onDone = onDone, task = Queued,
      children_rendered = (\<not> enabled c),
      effects = [RunAfterInteractions (''Incremental:'' @ groupId c @ '':''
                   @ number_toString (incrementalCount c + 1) @ ''-'' @ string_or_undefined name)]\<rparr>"
  by (simp add: mount_pass_def Incremental_def effect_submit_def effect_mounted_def getName_def
      context_enabled_def string_or_undefined_def Let_def)

lemma mount_pass_no_context:
  "mount_pass name onDone None =
     \<lparr>hooks = \<lparr>doIncrementalRender = False, incrementalIdRef = 1,
                mountedRef = True, renderedRef = True\<rparr>,
      mount_context = None, mount_name = name, mount_onDone = onDone, task = NotSubmitted,
      children_rendered = True,
      effects = call_optional onDone\<rparr>"
  by (simp add: mount_pass_def Incremental_def effect_submit_def effect_mounted_def
      context_enabled_def Let_def)

lemma step_not_submitted:
  "task w = NotSubmitted \<Longrightarrow> task (step w e) = NotSubmitted"
  by (induction w e rule: step.induct) (simp_all add: Let_def split: prod.splits)

lemma run_not_submitted:
  "task w = NotSubmitted \<Longrightarrow> task (run w es) = NotSubmitted"
  by (induction es arbitrary: w) (simp_all add: step_not_submitted)

lemma settle_resolved_once:
  assumes u: "Unmount \<notin> set es"
    and x: "task (run (mount_pass name (Some cb) (Some c)) es) = Executed"
  shows "calls cb (effects (run (mount_pass name (Some cb) (Some c)) (es @ Settle Resolved # es'))) = 1"
proof -
  let ?w0 = "mount_pass name (Some cb) (Some c)"
  let ?w1 = "run ?w0 es"
  let ?w2 = "step ?w1 (Settle Resolved)"
  have m: "mountedRef (hooks ?w1)"
    using u by (rule run_mounted) (simp add: mount_pass_context)
  have d: "mount_onDone ?w1 = Some cb"
    by (simp add: run_closure mount_pass_context)
  have "effects ?w1 = effects ?w0"
    using x by (intro run_effects_unsettled) simp
  then have e1: "calls cb (effects ?w1) = 0"
    by (simp add: mount_pass_context calls_def)
  have s: "task ?w2 = Settled" using x by simp
  have "calls cb (effects ?w2) = 1"
    using x m d e1 by (simp add: on_fulfilled_def call_optional_def calls_def)
  moreover have "effects (run ?w2 es') = effects ?w2"
    using s by (simp add: run_settled)
  ultimately show ?thesis by (simp add: run_append)
qed

subsection \<open>Exactly one completion callback\<close>

text \<open>
  C1. An instance mounted under a context with \<open>enabled = true\<close> and given an
  \<open>onDone\<close>, which is not unmounted before the interaction queue has run its task
  and whose task does not fail, has invoked \<open>onDone\<close> no time before the task's
  promise settles and exactly once at any later moment of its lifetime, whatever
  re-evaluations, unmount or further events come before or after.
\<close>

theorem onDone_exactly_once:
  assumes "enabled c"
    and "Unmount \<notin> set es"
    and "task (run (mount_pass name (Some cb) (Some c)) es) = Executed"
  shows "calls cb (effects (run (mount_pass name (Some cb) (Some c)) es)) = 0
       \<and> calls cb (effects (run (mount_pass name (Some cb) (Some c))
                                (es @ Settle Resolved # es'))) = 1"
proof -
  have "effects (run (mount_pass name (Some cb) (Some c)) es)
        = effects (mount_pass name (Some cb) (Some c))"
    using assms(3) by (intro run_effects_unsettled) simp
  then have "calls cb (effects (run (mount_pass name (Some cb) (Some c)) es)) = 0"
    by (simp add: mount_pass_context calls_def)
  with settle_resolved_once [OF assms(2,3)] show ?thesis by simp
qed

theorem onDone_exactly_once_witness:
  "enabled \<lparr>enabled = True, groupId = ''g0-row'', incrementalCount = - 1\<rparr>
   \<and> Unmount \<notin> set [Render (Some \<lparr>enabled = True, groupId = ''g0-row'', incrementalCount = - 1\<rparr>),
                      RunTask, Render (Some \<lparr>enabled = False, groupId = ''g0-row'', incrementalCount = - 1\<rparr>)]
   \<and> task (run (mount_pass None (Some 7)
                   (Some \<lparr>enabled = True, groupId = ''g0-row'', incrementalCount = - 1\<rparr>))
        [Render (Some \<lparr>enabled = True, groupId = ''g0-row'', incrementalCount = - 1\<rparr>),
         RunTask, Render (Some \<lparr>enabled = False, groupId = ''g0-row'', incrementalCount = - 1\<rparr>)])
       = Executed
   \<and> calls 7 (effects (run (mount_pass None (Some 7)
                   (Some \<lparr>enabled = True, groupId = ''g0-row'', incrementalCount = - 1\<rparr>))
        ([Render (Some \<lparr>enabled = True, groupId = ''g0-row'', incrementalCount = - 1\<rparr>),
          RunTask, Render (Some \<lparr>enabled = False, groupId = ''g0-row'', incrementalCount = - 1\<rparr>)]
         @ Settle Resolved # [Render None, Unmount, Settle Resolved]))) = 1"
    (is "?a \<and> ?b \<and> ?c \<and> ?d")
proof -
  have a: ?a by simp
  have b: ?b by simp
  have c: ?c
    by (simp add: mount_pass_context Incremental_def gen_def context_enabled_def Let_def)
  from onDone_exactly_once [OF a b c, of "[Render None, Unmount, Settle Resolved]"]
  have ?d by (rule conjunct2)
  with a b c show ?thesis by blast
qed

subsection \<open>A failed task\<close>

text \<open>
  C2. When the queued task of an instance fails, the error is thrown again with the
  message \<open>Incremental render failed for <name>: <original message>\<close>, where the
  name is the group id of the context, a colon, the instance id, a dash and the local
  name; \<open>onDone\<close> is never invoked, neither before nor after.
\<close>

theorem failed_task_never_calls_onDone:
  assumes "task (run (mount_pass name onDone (Some c)) es) = Executed"
  shows "effects (run (mount_pass name onDone (Some c)) (es @ Settle (Rejected message) # es'))
         = [RunAfterInteractions (''Incremental:'' @ groupId c @ '':''
              @ number_toString (incrementalCount c + 1) @ ''-'' @ string_or_undefined name),
            Rethrow (''Incremental render failed for '' @ groupId c @ '':''
              @ number_toString (incrementalCount c + 1) @ ''-'' @ string_or_undefined name
              @ '': '' @ message)]
       \<and> calls cb (effects (run (mount_pass name onDone (Some c))
                                (es @ Settle (Rejected message) # es'))) = 0"
proof -
  let ?w0 = "mount_pass name onDone (Some c)"
  let ?w1 = "run ?w0 es"
  let ?w2 = "step ?w1 (Settle (Rejected message))"
  have e1: "effects ?w1 = effects ?w0"
    using assms by (intro run_effects_unsettled) simp
  have i: "incrementalIdRef (hooks ?w1) = incrementalCount c + 1"
    by (simp add: run_idRef mount_pass_context)
  have cl: "mount_context ?w1 = Some c" "mount_name ?w1 = name"
    by (simp_all add: run_closure mount_pass_context)
  have s: "task ?w2 = Settled" using assms by simp
  have e2: "effects ?w2 = effects ?w0 @ on_rejected (Some c) name (hooks ?w1) message"
    using assms e1 cl by simp
  have "effects (run ?w2 es') = effects ?w2"
    using s by (simp add: run_settled)
  with e2 i have "effects (run ?w0 (es @ Settle (Rejected message) # es'))
         = [RunAfterInteractions (''Incremental:'' @ groupId c @ '':''
              @ number_toString (incrementalCount c + 1) @ ''-'' @ string_or_undefined name),
            Rethrow (''Incremental render failed for '' @ groupId c @ '':''
              @ number_toString (incrementalCount c + 1) @ ''-'' @ string_or_undefined name
              @ '': '' @ message)]"
    by (simp add: run_append mount_pass_context on_rejected_def getName_def
        string_or_undefined_def)
  then show ?thesis by (simp add: calls_def)
qed

theorem failed_task_never_calls_onDone_witness:
  "task (run (mount_pass (Some ''cell'') (Some 7)
               (Some \<lparr>enabled = True, groupId = ''g0-row'', incrementalCount = - 1\<rparr>))
          [RunTask]) = Executed
   \<and> effects (run (mount_pass (Some ''cell'') (Some 7)
               (Some \<lparr>enabled = True, groupId = ''g0-row'', incrementalCount = - 1\<rparr>))
          ([RunTask] @ Settle (Rejected ''boom'') # [Render None]))
       = [RunAfterInteractions ''Incremental:g0-row:0-cell'',
          Rethrow ''Incremental render failed for g0-row:0-cell: boom'']
   \<and> calls 7 (effects (run (mount_pass (Some ''cell'') (Some 7)
               (Some \<lparr>enabled = True, groupId = ''g0-row'', incrementalCount = - 1\<rparr>))
          ([RunTask] @ Settle (Rejected ''boom'') # [Render None]))) = 0"
    (is "?a \<and> ?b \<and> ?c")
proof -
  have a: ?a by (simp add: mount_pass_context)
  note t = failed_task_never_calls_onDone [OF a, of "''boom''" "[Render None]" 7]
  from t have c: ?c by (rule conjunct2)
  from t have "effects (run (mount_pass (Some ''cell'') (Some 7)
               (Some \<lparr>enabled = True, groupId = ''g0-row'', incrementalCount = - 1\<rparr>))
          ([RunTask] @ Settle (Rejected ''boom'') # [Render None]))
       = [RunAfterInteractions (''Incremental:''
            @ groupId \<lparr>enabled = True, groupId = ''g0-row'', incrementalCount = - 1\<rparr> @ '':''
            @ number_toString
                (incrementalCount \<lparr>enabled = True, groupId = ''g0-row'', incrementalCount = - 1\<rparr> + 1)
            @ ''-'' @ string_or_undefined (Some ''cell'')),
          Rethrow (''Incremental render failed for ''
            @ groupId \<lparr>enabled = True, groupId = ''g0-row'', incrementalCount = - 1\<rparr> @ '':''
            @ number_toString
                (incrementalCount \<lparr>enabled = True, groupId = ''g0-row'', incrementalCount = - 1\<rparr> + 1)
            @ ''-'' @ string_or_undefined (Some ''cell'') @ '': '' @ ''boom'')]"
    by (rule conjunct1)
  also have "\<dots> = [RunAfterInteractions ''Incremental:g0-row:0-cell'',
          Rethrow ''Incremental render failed for g0-row:0-cell: boom'']"
    by (simp add: number_toString_def digits.simps digit_def string_or_undefined_def)
  finally have b: ?b .
  from a b c show ?thesis by blast
qed

subsection \<open>A context with enabled = false\<close>

text \<open>
  C3, as stated, fails. A group named \<open>g\<close> mounted with \<open>disabled = true\<close>
  publishes a context with \<open>enabled = false\<close>; the mount pass of the chunk under it
  renders the children, but it does submit a task and it does not invoke \<open>onDone\<close>.
\<close>

theorem disabled_context_counterexample:
  "\<not> (children_rendered
         (mount_pass None (Some 7)
           (Some (snd (snd (IncrementalGroup (- 1) (Some ''g'') (Some True) None None)))))
       \<and> filter is_submission (effects
         (mount_pass None (Some 7)
           (Some (snd (snd (IncrementalGroup (- 1) (Some ''g'') (Some True) None None))))))
           = []
       \<and> calls 7 (effects
         (mount_pass None (Some 7)
           (Some (snd (snd (IncrementalGroup (- 1) (Some ''g'') (Some True) None None))))))
           = 1)"
  by (simp add: IncrementalGroup_def mount_pass_context calls_def Let_def)

text \<open>
  C3, amended. Under a context with \<open>enabled = false\<close> the children are rendered in
  the mount pass; the mount pass still submits exactly one task to the interaction queue
  and invokes no callback; \<open>onDone\<close> is invoked exactly once when the promise of the
  task is fulfilled, provided the instance was not unmounted before.
\<close>

theorem disabled_context_renders_at_once:
  assumes "\<not> enabled c"
  shows "children_rendered (mount_pass name (Some cb) (Some c))
       \<and> effects (mount_pass name (Some cb) (Some c))
           = [RunAfterInteractions (''Incremental:'' @ groupId c @ '':''
                @ number_toString (incrementalCount c + 1) @ ''-'' @ string_or_undefined name)]
       \<and> (Unmount \<notin> set es \<and> task (run (mount_pass name (Some cb) (Some c)) es) = Executed
            \<longrightarrow> calls cb (effects (run (mount_pass name (Some cb) (Some c)) es)) = 0
              \<and> calls cb (effects (run (mount_pass name (Some cb) (Some c))
                                       (es @ Settle Resolved # es'))) = 1)"
proof (intro conjI impI)
  show "children_rendered (mount_pass name (Some cb) (Some c))"
    using assms by (simp add: mount_pass_context)
  show "effects (mount_pass name (Some cb) (Some c))
           = [RunAfterInteractions (''Incremental:'' @ groupId c @ '':''
                @ number_toString (incrementalCount c + 1) @ ''-'' @ string_or_undefined name)]"
    by (simp add: mount_pass_context)
next
  assume h: "Unmount \<notin> set es \<and> task (run (mount_pass name (Some cb) (Some c)) es) = Executed"
  then have "effects (run (mount_pass name (Some cb) (Some c)) es)
        = effects (mount_pass name (Some cb) (Some c))"
    by (intro run_effects_unsettled) simp
  then show "calls cb (effects (run (mount_pass name (Some cb) (Some c)) es)) = 0"
    by (simp add: mount_pass_context calls_def)
next
  assume h: "Unmount \<notin> set es \<and> task (run (mount_pass name (Some cb) (Some c)) es) = Executed"
  then show "calls cb (effects (run (mount_pass name (Some cb) (Some c))
                                       (es @ Settle Resolved # es'))) = 1"
    by (intro settle_resolved_once) simp_all
qed

theorem disabled_context_renders_at_once_witness:
  "\<not> enabled \<lparr>enabled = False, groupId = ''g0-g'', incrementalCount = - 1\<rparr>
   \<and> children_rendered
       (mount_pass None (Some 7) (Some \<lparr>enabled = False, groupId = ''g0-g'', incrementalCount = - 1\<rparr>))
   \<and> Unmount \<notin> set [RunTask]
   \<and> task (run (mount_pass None (Some 7)
               (Some \<lparr>enabled = False, groupId = ''g0-g'', incrementalCount = - 1\<rparr>)) [RunTask])
       = Executed
   \<and> calls 7 (effects (run (mount_pass None (Some 7)
               (Some \<lparr>enabled = False, groupId = ''g0-g'', incrementalCount = - 1\<rparr>))
         ([RunTask] @ Settle Resolved # []))) = 1"
    (is "?a \<and> ?b \<and> ?c \<and> ?d \<and> ?e")
proof -
  have a: ?a by simp
  have c: ?c by simp
  have d: ?d by (simp add: mount_pass_context)
  note t = disabled_context_renders_at_once [OF a, of None 7 "[RunTask]" "[]"]
  from t have b: ?b by (rule conjunct1)
  from t c d have e: ?e by blast
  from a b c d e show ?thesis by blast
qed

subsection \<open>The rendered latch\<close>

lemma Incremental_latches:
  "snd (Incremental context cells) \<Longrightarrow> renderedRef (fst (Incremental context cells))"
  by (simp add: Incremental_def Let_def split: if_splits)

lemma Incremental_latched:
  "renderedRef h \<Longrightarrow>
     snd (Incremental context (Some h)) \<and> renderedRef (fst (Incremental context (Some h)))"
  by (simp add: Incremental_def Let_def)

lemma mount_pass_latches:
  "children_rendered (mount_pass name onDone context)
     \<Longrightarrow> renderedRef (hooks (mount_pass name onDone context))"
proof -
  assume c: "children_rendered (mount_pass name onDone context)"
  obtain h out where i: "Incremental context None = (h, out)"
    by (cases "Incremental context None") auto
  with c have "out" by (simp add: mount_pass_def effect_mounted_def Let_def)
  with i have "snd (Incremental context None)" by simp
  then have "renderedRef (fst (Incremental context None))" by (rule Incremental_latches)
  with i have "renderedRef h" by simp
  with i show ?thesis by (simp add: mount_pass_def effect_mounted_def Let_def)
qed

lemma step_latches:
  assumes "children_rendered w \<longrightarrow> renderedRef (hooks w)"
  shows "children_rendered (step w e) \<longrightarrow> renderedRef (hooks (step w e))"
proof (cases e)
  case (Render c)
  obtain h out where i: "Incremental c (Some (hooks w)) = (h, out)"
    by (cases "Incremental c (Some (hooks w))") auto
  with Incremental_latches [of c "Some (hooks w)"] have "out \<longrightarrow> renderedRef h" by simp
  with assms i show ?thesis by (simp add: Render)
next
  case RunTask
  with assms show ?thesis by (simp add: gen_def)
next
  case (Settle r)
  with assms show ?thesis by (cases r) simp_all
next
  case Unmount
  with assms show ?thesis by (simp add: cleanup_def)
qed

lemma run_latches:
  "children_rendered w \<longrightarrow> renderedRef (hooks w)
     \<Longrightarrow> children_rendered (run w es) \<longrightarrow> renderedRef (hooks (run w es))"
proof (induction es arbitrary: w)
  case Nil
  then show ?case by simp
next
  case (Cons e es)
  from Cons.prems have "children_rendered (step w e) \<longrightarrow> renderedRef (hooks (step w e))"
    by (rule step_latches)
  then show ?case using Cons.IH [of "step w e"] by simp
qed

lemma step_stays_rendered:
  assumes "children_rendered w \<and> renderedRef (hooks w)"
  shows "children_rendered (step w e) \<and> renderedRef (hooks (step w e))"
proof (cases e)
  case (Render c)
  obtain h out where i: "Incremental c (Some (hooks w)) = (h, out)"
    by (cases "Incremental c (Some (hooks w))") auto
  with assms Incremental_latched [of "hooks w" c] have "out \<and> renderedRef h" by simp
  with assms i show ?thesis by (simp add: Render)
next
  case RunTask
  with assms show ?thesis by (simp add: gen_def)
next
  case (Settle r)
  with assms show ?thesis by (cases r) simp_all
next
  case Unmount
  with assms show ?thesis by (simp add: cleanup_def)
qed

lemma run_stays_rendered:
  "children_rendered w \<and> renderedRef (hooks w)
     \<Longrightarrow> children_rendered (run w es) \<and> renderedRef (hooks (run w es))"
proof (induction es arbitrary: w)
  case Nil
  then show ?case by simp
next
  case (Cons e es)
  from Cons.prems have "children_rendered (step w e) \<and> renderedRef (hooks (step w e))"
    by (rule step_stays_rendered)
  then show ?case using Cons.IH [of "step w e"] by simp
qed

text \<open>
  C4. An evaluation that returns the children sets \<open>renderedRef\<close>, the first one as
  well as a later one. From the moment an instance has rendered its children, at whatever
  point of its lifetime and for whatever reason, \<open>renderedRef\<close> stays set and the
  children stay rendered through every later event, and every later evaluation returns
  the children and leaves \<open>renderedRef\<close> set, whatever context it reads: one with
  \<open>enabled = true\<close>, one with \<open>enabled = false\<close> or none.
\<close>

theorem rendered_latch:
  "(snd (Incremental context cells) \<longrightarrow> renderedRef (fst (Incremental context cells)))
   \<and> (children_rendered (run (mount_pass name onDone context0) es) \<longrightarrow>
        renderedRef (hooks (run (mount_pass name onDone context0) es))
      \<and> renderedRef (hooks (run (mount_pass name onDone context0) (es @ es')))
      \<and> children_rendered (run (mount_pass name onDone context0) (es @ es'))
      \<and> snd (Incremental context'
               (Some (hooks (run (mount_pass name onDone context0) (es @ es')))))
      \<and> renderedRef (fst (Incremental context'
               (Some (hooks (run (mount_pass name onDone context0) (es @ es')))))))"
proof (intro conjI impI)
  show "snd (Incremental context cells) \<Longrightarrow> renderedRef (fst (Incremental context cells))"
    by (rule Incremental_latches)
next
  let ?w = "run (mount_pass name onDone context0) es"
  assume c: "children_rendered ?w"
  have "children_rendered ?w \<longrightarrow> renderedRef (hooks ?w)"
    using mount_pass_latches [of name onDone context0] by (intro run_latches) simp
  with c have r: "renderedRef (hooks ?w)" by simp
  with c have s: "children_rendered (run ?w es') \<and> renderedRef (hooks (run ?w es'))"
    using run_stays_rendered [of ?w es'] by simp
  have a: "run (mount_pass name onDone context0) (es @ es') = run ?w es'"
    by (rule run_append)
  show "renderedRef (hooks ?w)" by (rule r)
  show "renderedRef (hooks (run (mount_pass name onDone context0) (es @ es')))"
    using s a by simp
  show "children_rendered (run (mount_pass name onDone context0) (es @ es'))"
    using s a by simp
  show "snd (Incremental context'
               (Some (hooks (run (mount_pass name onDone context0) (es @ es')))))"
    using s a Incremental_latched by simp
  show "renderedRef (fst (Incremental context'
               (Some (hooks (run (mount_pass name onDone context0) (es @ es'))))))"
    using s a Incremental_latched by simp
qed

theorem rendered_latch_witness:
  "\<not> children_rendered (mount_pass None None
       (Some \<lparr>enabled = True, groupId = ''g0-row'', incrementalCount = - 1\<rparr>))
   \<and> children_rendered (run (mount_pass None None
       (Some \<lparr>enabled = True, groupId = ''g0-row'', incrementalCount = - 1\<rparr>))
       [Render (Some \<lparr>enabled = False, groupId = ''g0-row'', incrementalCount = - 1\<rparr>)])
   \<and> \<not> doIncrementalRender (hooks (run (mount_pass None None
       (Some \<lparr>enabled = True, groupId = ''g0-row'', incrementalCount = - 1\<rparr>))
       [Render (Some \<lparr>enabled = False, groupId = ''g0-row'', incrementalCount = - 1\<rparr>)]))
   \<and> children_rendered (run (mount_pass None None
       (Some \<lparr>enabled = True, groupId = ''g0-row'', incrementalCount = - 1\<rparr>))
       ([Render (Some \<lparr>enabled = False, groupId = ''g0-row'', incrementalCount = - 1\<rparr>)]
        @ [Render (Some \<lparr>enabled = True, groupId = ''g0-row'', incrementalCount = - 1\<rparr>)]))
   \<and> snd (Incremental (Some \<lparr>enabled = True, groupId = ''g0-row'', incrementalCount = - 1\<rparr>)
       (Some (hooks (run (mount_pass None None
         (Some \<lparr>enabled = True, groupId = ''g0-row'', incrementalCount = - 1\<rparr>))
         ([Render (Some \<lparr>enabled = False, groupId = ''g0-row'', incrementalCount = - 1\<rparr>)]
          @ [Render (Some \<lparr>enabled = True, groupId = ''g0-row'', incrementalCount = - 1\<rparr>)])))))"
    (is "?a \<and> ?b \<and> ?c \<and> ?d \<and> ?e")
proof -
  have a: ?a by (simp add: mount_pass_context)
  have b: ?b
    by (simp add: mount_pass_context Incremental_def context_enabled_def Let_def)
  have c: ?c
    by (simp add: mount_pass_context Incremental_def context_enabled_def Let_def)
  note t = rendered_latch [of _ _ None None
      "Some \<lparr>enabled = True, groupId = ''g0-row'', incrementalCount = - 1\<rparr>"
      "[Render (Some \<lparr>enabled = False, groupId = ''g0-row'', incrementalCount = - 1\<rparr>)]"
      "[Render (Some \<lparr>enabled = True, groupId = ''g0-row'', incrementalCount = - 1\<rparr>)]"
      "Some \<lparr>enabled = True, groupId = ''g0-row'', incrementalCount = - 1\<rparr>"]
  from t b have d: ?d by blast
  from t b have e: ?e by blast
  from a b c d e show ?thesis by blast
qed

subsection \<open>Unmounting before the task runs\<close>

text \<open>
  C5. After an instance is unmounted, at whatever point of its lifetime, no later event
  changes any of its cells (the task, when the queue runs it, does not set
  \<open>doIncrementalRender\<close>) and no later event invokes \<open>onDone\<close>.
\<close>

theorem no_effect_after_unmount:
  "hooks (run (mount_pass name onDone context) (es @ Unmount # es'))
     = hooks (run (mount_pass name onDone context) (es @ [Unmount]))
   \<and> doIncrementalRender (hooks (run (mount_pass name onDone context) (es @ Unmount # es')))
     = doIncrementalRender (hooks (run (mount_pass name onDone context) es))
   \<and> calls cb (effects (run (mount_pass name onDone context) (es @ Unmount # es')))
     = calls cb (effects (run (mount_pass name onDone context) es))"
proof -
  let ?w = "run (mount_pass name onDone context) es"
  let ?u = "step ?w Unmount"
  have u: "\<not> mountedRef (hooks ?u)" by (simp add: cleanup_def)
  have 1: "run (mount_pass name onDone context) (es @ Unmount # es') = run ?u es'"
    by (simp add: run_append)
  have 2: "run (mount_pass name onDone context) (es @ [Unmount]) = ?u"
    by (simp add: run_append)
  have 3: "hooks (run ?u es') = hooks ?u" using u by (rule run_unmounted)
  have 4: "calls cb (effects (run ?u es')) = calls cb (effects ?u)"
    using u by (rule run_unmounted_calls)
  have 5: "doIncrementalRender (hooks ?u) = doIncrementalRender (hooks ?w)"
    by (simp add: cleanup_def)
  have 6: "effects ?u = effects ?w" by simp
  from 1 2 3 4 5 6 show ?thesis by simp
qed

theorem no_effect_after_unmount_witness:
  "doIncrementalRender (hooks (run (mount_pass None (Some 7)
       (Some \<lparr>enabled = True, groupId = ''g0-row'', incrementalCount = - 1\<rparr>))
       ([] @ Unmount # [RunTask, Settle Resolved]))) = False
   \<and> calls 7 (effects (run (mount_pass None (Some 7)
       (Some \<lparr>enabled = True, groupId = ''g0-row'', incrementalCount = - 1\<rparr>))
       ([] @ Unmount # [RunTask, Settle Resolved]))) = 0"
    (is "?a \<and> ?b")
proof -
  note t = no_effect_after_unmount [of None "Some 7"
      "Some \<lparr>enabled = True, groupId = ''g0-row'', incrementalCount = - 1\<rparr>" "[]"
      "[RunTask, Settle Resolved]" 7]
  have i: "doIncrementalRender (hooks (run (mount_pass None (Some 7)
       (Some \<lparr>enabled = True, groupId = ''g0-row'', incrementalCount = - 1\<rparr>)) [])) = False"
    by (simp add: mount_pass_context)
  have j: "calls 7 (effects (run (mount_pass None (Some 7)
       (Some \<lparr>enabled = True, groupId = ''g0-row'', incrementalCount = - 1\<rparr>)) [])) = 0"
    by (simp add: mount_pass_context calls_def)
  from t i have a: ?a by metis
  from t j have b: ?b by metis
  from a b show ?thesis by blast
qed

subsection \<open>No ambient context\<close>

text \<open>
  C6. Without an ambient context the mount pass renders the children and invokes
  \<open>onDone\<close>; that invocation is the only effect the instance ever has, so no task is
  submitted to the interaction queue at any time.
\<close>

theorem no_context_is_synchronous:
  "children_rendered (mount_pass name (Some cb) None)
   \<and> effects (mount_pass name (Some cb) None) = [CallOnDone cb]
   \<and> effects (run (mount_pass name (Some cb) None) es) = [CallOnDone cb]
   \<and> filter is_submission (effects (run (mount_pass name (Some cb) None) es)) = []"
proof -
  have "task (mount_pass name (Some cb) None) = NotSubmitted"
    by (simp add: mount_pass_no_context)
  then have "task (run (mount_pass name (Some cb) None) es) = NotSubmitted"
    by (rule run_not_submitted)
  then have "effects (run (mount_pass name (Some cb) None) es)
             = effects (mount_pass name (Some cb) None)"
    by (intro run_effects_unsettled) simp
  then show ?thesis by (simp add: mount_pass_no_context call_optional_def)
qed

theorem no_context_is_synchronous_witness:
  "children_rendered (mount_pass (Some ''cell'') (Some 7) None)
   \<and> effects (run (mount_pass (Some ''cell'') (Some 7) None)
        [Render None, RunTask, Settle Resolved, Unmount]) = [CallOnDone 7]"
  using no_context_is_synchronous [of "Some ''cell''" 7 "[Render None, RunTask, Settle Resolved, Unmount]"]
  by blast

subsection \<open>The instance id\<close>

text \<open>
  C10, as stated, fails: without an ambient context the id of an instance is 1, not 0.
\<close>

theorem assigned_id_counterexample:
  "\<not> (incrementalIdRef (fst (Incremental None None)) = 0)"
  by (simp add: Incremental_def context_enabled_def Let_def)

text \<open>
  C10, amended. The id of an instance is fixed at its first evaluation as the
  \<open>incrementalCount\<close> of the ambient context plus one, where an absent context counts
  as 0, so that the id is 1 without a context; no later event of the instance changes it.
\<close>

theorem assigned_id_stable:
  "incrementalIdRef (fst (Incremental context None))
     = (case context of None \<Rightarrow> 0 | Some c \<Rightarrow> incrementalCount c) + 1
   \<and> incrementalIdRef (fst (Incremental None None)) = 1
   \<and> incrementalIdRef (hooks (run (mount_pass name onDone context) es))
     = incrementalIdRef (fst (Incremental context None))"
proof -
  have "incrementalIdRef (hooks (mount_pass name onDone context))
        = incrementalIdRef (fst (Incremental context None))"
    by (simp add: mount_pass_def effect_mounted_def Let_def split: prod.splits)
  then show ?thesis
    by (simp add: run_idRef) (simp add: Incremental_def Let_def)
qed

theorem assigned_id_stable_witness:
  "incrementalIdRef (hooks (run (mount_pass None None
       (Some \<lparr>enabled = True, groupId = ''g0-row'', incrementalCount = - 1\<rparr>))
       [RunTask, Render None, Settle Resolved, Unmount])) = 0"
proof -
  note t = assigned_id_stable [of "Some \<lparr>enabled = True, groupId = ''g0-row'', incrementalCount = - 1\<rparr>"
      None None "[RunTask, Render None, Settle Resolved, Unmount]"]
  have "incrementalIdRef (fst (Incremental
      (Some \<lparr>enabled = True, groupId = ''g0-row'', incrementalCount = - 1\<rparr>) None)) = 0"
    by (simp add: Incremental_def Let_def)
  with t show ?thesis by metis
qed

section \<open>Properties of IncrementalGroup\<close>

lemma IncrementalGroup_first:
  "IncrementalGroup groupCounter name disabled context None =
     (groupCounter + 1,
      \<lparr>groupIncRef = ''g'' @ number_toString (groupCounter + 1) @ ''-'',
       getGroupId_closure = (context, name),
       childContext_deps = (map_option enabled context, disabled, (context, name)),
       childContext_value =
         \<lparr>enabled = \<not> (disabled = Some True \<or> map_option enabled context = Some False),
          groupId = getGroupId (''g'' @ number_toString (groupCounter + 1) @ ''-'') (context, name),
          incrementalCount = - 1\<rparr>\<rparr>,
      \<lparr>enabled = \<not> (disabled = Some True \<or> map_option enabled context = Some False),
       groupId = getGroupId (''g'' @ number_toString (groupCounter + 1) @ ''-'') (context, name),
       incrementalCount = - 1\<rparr>)"
  by (simp add: IncrementalGroup_def Let_def)

lemma IncrementalGroup_again:
  assumes "memo_consistent h"
  shows "IncrementalGroup groupCounter name disabled context (Some h) =
     (groupCounter + 1,
      \<lparr>groupIncRef = groupIncRef h,
       getGroupId_closure = (context, name),
       childContext_deps = (map_option enabled context, disabled, (context, name)),
       childContext_value =
         \<lparr>enabled = \<not> (disabled = Some True \<or> map_option enabled context = Some False),
          groupId = getGroupId (groupIncRef h) (context, name),
          incrementalCount = - 1\<rparr>\<rparr>,
      \<lparr>enabled = \<not> (disabled = Some True \<or> map_option enabled context = Some False),
       groupId = getGroupId (groupIncRef h) (context, name),
       incrementalCount = - 1\<rparr>)"
  using assms by (auto simp: IncrementalGroup_def memo_consistent_def Let_def)

lemma IncrementalGroup_consistent:
  assumes "cells = None \<or> (\<exists>h. cells = Some h \<and> memo_consistent h)"
  shows "memo_consistent (fst (snd (IncrementalGroup groupCounter name disabled context cells)))"
  using assms
  by (auto simp: IncrementalGroup_first IncrementalGroup_again) (simp_all add: memo_consistent_def)

lemma IncrementalGroup_evaluations_consistent:
  assumes "cells = None \<or> (\<exists>h. cells = Some h \<and> memo_consistent h)"
    and "IncrementalGroup_evaluations groupCounter cells rs = (groupCounter', cells')"
  shows "cells' = None \<or> (\<exists>h. cells' = Some h \<and> memo_consistent h)"
  using assms
proof (induction rs arbitrary: groupCounter cells)
  case Nil
  then show ?case by simp
next
  case (Cons r rs)
  obtain name disabled ambient where r: "r = (name, disabled, ambient)"
    by (cases r) auto
  obtain c1 h1 cc where g: "IncrementalGroup groupCounter name disabled ambient cells = (c1, h1, cc)"
    by (cases "IncrementalGroup groupCounter name disabled ambient cells") auto
  from IncrementalGroup_consistent [OF Cons.prems(1), of groupCounter name disabled ambient] g
  have "memo_consistent h1" by simp
  moreover from Cons.prems(2) r g
  have "IncrementalGroup_evaluations c1 (Some h1) rs = (groupCounter', cells')" by simp
  ultimately show ?case using Cons.IH [of "Some h1" c1] by simp
qed

lemma IncrementalGroup_enabled:
  assumes "cells = None \<or> (\<exists>h. cells = Some h \<and> memo_consistent h)"
  shows "enabled (snd (snd (IncrementalGroup groupCounter name disabled context cells)))
         = (disabled \<noteq> Some True \<and> map_option enabled context \<noteq> Some False)"
  using assms by (auto simp: IncrementalGroup_first IncrementalGroup_again)

text \<open>
  C7. At every evaluation of a group, the first or a later one after any earlier
  evaluations with other props and contexts, the context it publishes has
  \<open>enabled = !disabled && (context?.enabled !== false)\<close> for the props and ambient
  context of that evaluation; under an ambient context with \<open>enabled = false\<close> it is
  false whatever the group's own \<open>disabled\<close> is.
\<close>

theorem published_enabled:
  assumes "IncrementalGroup_evaluations groupCounter None earlier = (groupCounter', cells)"
  shows "enabled (snd (snd (IncrementalGroup groupCounter' name disabled context cells)))
           = (disabled \<noteq> Some True \<and> map_option enabled context \<noteq> Some False)
       \<and> (context = Some c \<and> \<not> enabled c
            \<longrightarrow> \<not> enabled (snd (snd (IncrementalGroup groupCounter' name disabled context cells))))"
proof -
  have "cells = None \<or> (\<exists>h. cells = Some h \<and> memo_consistent h)"
    using IncrementalGroup_evaluations_consistent [OF _ assms] by simp
  then have "enabled (snd (snd (IncrementalGroup groupCounter' name disabled context cells)))
           = (disabled \<noteq> Some True \<and> map_option enabled context \<noteq> Some False)"
    by (rule IncrementalGroup_enabled)
  then show ?thesis by auto
qed

theorem published_enabled_witness:
  "IncrementalGroup_evaluations (- 1) None [(Some ''row'', None, None)]
     = (0, Some \<lparr>groupIncRef = ''g0-'', getGroupId_closure = (None, Some ''row''),
                 childContext_deps = (None, None, (None, Some ''row'')),
                 childContext_value = \<lparr>enabled = True, groupId = ''g0-row'', incrementalCount = - 1\<rparr>\<rparr>)
   \<and> \<not> enabled (snd (snd (IncrementalGroup 0 (Some ''row'') (Some False)
         (Some \<lparr>enabled = False, groupId = ''g7-list'', incrementalCount = - 1\<rparr>)
         (Some \<lparr>groupIncRef = ''g0-'', getGroupId_closure = (None, Some ''row''),
                 childContext_deps = (None, None, (None, Some ''row'')),
                 childContext_value = \<lparr>enabled = True, groupId = ''g0-row'', incrementalCount = - 1\<rparr>\<rparr>))))"
    (is "?a \<and> ?b")
proof -
  have a: ?a
    by (simp add: IncrementalGroup_first getGroupId_def string_or_undefined_def
        number_toString_def digits.simps digit_def)
  from published_enabled [OF a, of "Some ''row''" "Some False"
      "Some \<lparr>enabled = False, groupId = ''g7-list'', incrementalCount = - 1\<rparr>"
      "\<lparr>enabled = False, groupId = ''g7-list'', incrementalCount = - 1\<rparr>"]
  have ?b by simp
  with a show ?thesis by blast
qed

section \<open>Properties of IncrementalPresenter\<close>

text \<open>
  The group of a presenter that is not disabled publishes an enabled context, so the
  \<open>Incremental\<close> that wraps the view returns null in the mount pass. The task calls
  the state setter and resolves its promise at once, without waiting for the
  re-evaluation. When the promise is fulfilled before the host has evaluated the
  component again, \<open>onDone\<close> is invoked while the children, and so the view, are
  still absent.
\<close>

lemma completion_before_reevaluation:
  "\<not> children_rendered (run (mount_pass None (Some 7)
         (Some (snd (snd (IncrementalGroup (- 1) (Some ''card'') None None None)))))
       [RunTask, Settle Resolved])
   \<and> calls 7 (effects (run (mount_pass None (Some 7)
         (Some (snd (snd (IncrementalGroup (- 1) (Some ''card'') None None None)))))
       [RunTask, Settle Resolved])) = 1"
  by (simp add: IncrementalGroup_first mount_pass_context gen_def on_fulfilled_def
      call_optional_def calls_def)

text \<open>
  What the code does when the view is attached at the completion signal. For a
  presenter that is not disabled and whose ambient enablement is not false, every
  evaluation before the signal gives the view the caller's style overridden by opacity 0
  and absolute positioning and leaves the cells as they are; the signal sets
  \<open>isDoneRef\<close>, makes one \<open>setNativeProps\<close> call with the caller's style overridden by
  opacity 1 and relative positioning, then invokes the presenter's own \<open>onDone\<close>; every
  evaluation after it passes the caller's style through. If the presenter is disabled or
  the ambient enablement is false, every evaluation passes the caller's style through
  and the signal makes no visual mutation.
\<close>

lemma presenter_with_view:
  "(disabled \<noteq> Some True \<and> map_option enabled context \<noteq> Some False \<longrightarrow>
      snd (IncrementalPresenter disabled context style None)
        = StyleArray style \<lparr>opacity = 0, position = absolute\<rparr>
    \<and> (\<not> isDoneRef h \<longrightarrow>
         IncrementalPresenter disabled context style (Some h)
           = (h, StyleArray style \<lparr>opacity = 0, position = absolute\<rparr>))
    \<and> (viewRef h = Some view \<longrightarrow>
         onDoneInternal disabled context style (Some cb) h
           = (h\<lparr>isDoneRef := True,
                 viewRef := Some (StyleArray style \<lparr>opacity = 1, position = relative\<rparr>)\<rparr>,
              [SetNativeProps (StyleArray style \<lparr>opacity = 1, position = relative\<rparr>),
               CallPresenterOnDone cb])))
   \<and> snd (IncrementalPresenter disabled' context' style'
            (Some (fst (onDoneInternal disabled context style onDone h)))) = Style style'
   \<and> (disabled = Some True \<or> map_option enabled context = Some False \<longrightarrow>
        snd (IncrementalPresenter disabled context style cells) = Style style
      \<and> onDoneInternal disabled context style (Some cb) h
          = (h\<lparr>isDoneRef := True\<rparr>, [CallPresenterOnDone cb]))"
  by (cases "viewRef h")
     (auto simp: IncrementalPresenter_def onDoneInternal_def Let_def split: option.splits)

text \<open>
  C9. The claim does not hold of the code when the completion signal arrives before the
  view is mounted. A presenter named \<open>card\<close> with a style and an \<open>onDone\<close>, not
  disabled and under no ambient context, is evaluated once; the view it returns carries
  the hidden style and is not mounted yet. The completion signal then sets
  \<open>isDoneRef\<close> and invokes \<open>onDone\<close>, but \<open>viewRef.current\<close> is null and no
  \<open>setNativeProps\<close> call is made. When the view is mounted afterwards it is the view
  of that one evaluation, with opacity 0 and absolute positioning, and the mutation that
  would reveal it has been skipped.
\<close>

theorem presenter_completion_without_view:
  "IncrementalPresenter None None (Some ''card'') None
     = (\<lparr>isDoneRef = False, viewRef = None\<rparr>,
        StyleArray (Some ''card'') \<lparr>opacity = 0, position = absolute\<rparr>)
   \<and> onDoneInternal None None (Some ''card'') (Some 7)
        (fst (IncrementalPresenter None None (Some ''card'') None))
       = (\<lparr>isDoneRef = True, viewRef = None\<rparr>, [CallPresenterOnDone 7])
   \<and> View_mounted (snd (IncrementalPresenter None None (Some ''card'') None))
        (fst (onDoneInternal None None (Some ''card'') (Some 7)
          (fst (IncrementalPresenter None None (Some ''card'') None))))
       = \<lparr>isDoneRef = True,
          viewRef = Some (StyleArray (Some ''card'') \<lparr>opacity = 0, position = absolute\<rparr>)\<rparr>"
  by (simp add: IncrementalPresenter_def onDoneInternal_def View_mounted_def Let_def)

section \<open>Properties of the string conversions\<close>

lemma digit_inj: "a < 10 \<Longrightarrow> b < 10 \<Longrightarrow> digit a = digit b \<Longrightarrow> a = b"
proof -
  assume a: "a < 10" and b: "b < 10" and e: "digit a = digit b"
  have da: "distinct ''0123456789''" by simp
  have "length ''0123456789'' = 10" by simp
  with a b e da show ?thesis
    unfolding digit_def by (metis nth_eq_iff_index_eq)
qed

lemma digit_not_dash:
  assumes "d < 10" shows "digit d \<noteq> CHR ''-''"
proof -
  have "d < length ''0123456789''" using assms by simp
  then have "''0123456789'' ! d \<in> set ''0123456789''" by (rule nth_mem)
  moreover have "CHR ''-'' \<notin> set ''0123456789''" by simp
  ultimately show ?thesis unfolding digit_def by metis
qed

lemma digits_not_Nil: "digits n \<noteq> []"
  by (subst digits.simps) simp

lemma digits_no_dash: "CHR ''-'' \<notin> set (digits n)"
proof (induction n rule: digits.induct)
  case (1 n)
  show ?case
  proof (cases "n < 10")
    case True
    then show ?thesis using digit_not_dash [of n] by (subst digits.simps) auto
  next
    case False
    have "n mod 10 < 10" by simp
    then have "digit (n mod 10) \<noteq> CHR ''-''" by (rule digit_not_dash)
    with False 1 show ?thesis by (subst digits.simps) auto
  qed
qed

lemma digits_inj: "digits n = digits m \<Longrightarrow> n = m"
proof (induction n arbitrary: m rule: digits.induct)
  case (1 n)
  show ?case
  proof (cases "n < 10")
    case n: True
    show ?thesis
    proof (cases "m < 10")
      case True
      with n 1(2) show ?thesis
        by (simp add: digits.simps [of n] digits.simps [of m] digit_inj)
    next
      case False
      with n 1(2) digits_not_Nil [of "m div 10"] show ?thesis
        by (simp add: digits.simps [of n] digits.simps [of m] Cons_eq_append_conv)
    qed
  next
    case n: False
    show ?thesis
    proof (cases "m < 10")
      case True
      with n 1(2) digits_not_Nil [of "n div 10"] show ?thesis
        by (simp add: digits.simps [of n] digits.simps [of m] append_eq_Cons_conv)
    next
      case False
      with n 1(2) have e: "digits (n div 10) = digits (m div 10)"
        and d: "digit (n mod 10) = digit (m mod 10)"
        by (simp_all add: digits.simps [of n] digits.simps [of m])
      from 1(1) [OF n e] have q: "n div 10 = m div 10" .
      have "n mod 10 = m mod 10" using d by (intro digit_inj) simp_all
      with q show ?thesis by (metis div_mult_mod_eq)
    qed
  qed
qed

lemma split_at_dash:
  "CHR ''-'' \<notin> set xs \<Longrightarrow> CHR ''-'' \<notin> set ys \<Longrightarrow>
   xs @ CHR ''-'' # r = ys @ CHR ''-'' # r' \<Longrightarrow> xs = ys \<and> r = r'"
proof (induction xs arbitrary: ys)
  case Nil
  then show ?case by (cases ys) auto
next
  case (Cons x xs)
  then show ?case by (cases ys) auto
qed

lemma prefix_inj:
  assumes "0 \<le> k" and "0 \<le> k'"
    and "p @ (''g'' @ number_toString k @ ''-'') @ r = p @ (''g'' @ number_toString k' @ ''-'') @ r'"
  shows "k = k'"
proof -
  from assms have "digits (nat k) @ CHR ''-'' # r = digits (nat k') @ CHR ''-'' # r'"
    by (simp add: number_toString_def)
  then have "digits (nat k) = digits (nat k')"
    using split_at_dash [OF digits_no_dash digits_no_dash] by blast
  then have "nat k = nat k'" by (rule digits_inj)
  with assms(1,2) show ?thesis by simp
qed

section \<open>Properties of the groups of a process\<close>

lemma group_ok_published:
  assumes "group_ok c ambient g"
  shows "groupId (group_published g)
         = (case ambient of None \<Rightarrow> [] | Some x \<Rightarrow> groupId x @ '':'')
             @ groupIncRef (group_cells g) @ string_or_undefined (group_name g)"
proof (cases g)
  case (GroupInstance h n d pub nested)
  with assms have m: "memo_consistent h"
    and d: "childContext_deps h = (map_option enabled ambient, d, (ambient, n))"
    and p: "pub = childContext_value h" by simp_all
  from m d have "groupId (childContext_value h) = getGroupId (groupIncRef h) (ambient, n)"
    by (simp add: memo_consistent_def)
  with p GroupInstance show ?thesis by (simp add: getGroupId_def)
qed

lemma group_ok_ref:
  assumes "group_ok c ambient g"
  obtains k where "0 \<le> k" and "k \<le> c"
    and "groupIncRef (group_cells g) = ''g'' @ number_toString k @ ''-''"
  using assms by (cases g) auto

lemma scope_ids_prefix:
  assumes "group_ok c ambient g" and "s \<in> set (scope_ids g)"
  shows "\<exists>r. s = groupId (group_published g) @ r"
  using assms
proof (induction g arbitrary: ambient s)
  case (GroupInstance h n d pub nested)
  show ?case
  proof (cases "s = groupId pub")
    case True
    then show ?thesis by simp
  next
    case False
    with GroupInstance.prems(2) obtain g' where g': "g' \<in> set nested" and s: "s \<in> set (scope_ids g')"
      by auto
    from GroupInstance.prems(1) g' have ok: "group_ok c (Some pub) g'" by auto
    from GroupInstance.IH [OF g' ok s] obtain r where "s = groupId (group_published g') @ r" ..
    with group_ok_published [OF ok] show ?thesis by simp
  qed
qed

lemma scope_ids_nested_longer:
  assumes "group_ok c (Some pub) g" and "s \<in> set (scope_ids g)"
  shows "s \<noteq> groupId pub"
proof -
  from scope_ids_prefix [OF assms] obtain r where "s = groupId (group_published g) @ r" ..
  with group_ok_published [OF assms(1)] have "length s > length (groupId pub)" by simp
  then show ?thesis by auto
qed

lemma scope_ids_siblings_distinct:
  assumes "\<forall>g \<in> set gs. group_ok c ambient g"
    and "distinct (map (\<lambda>g. groupIncRef (group_cells g)) gs)"
    and "\<forall>g \<in> set gs. distinct (scope_ids g)"
  shows "distinct (concat (map scope_ids gs))"
  using assms
proof (induction gs)
  case Nil
  show ?case by simp
next
  case (Cons g gs)
  have "set (scope_ids g) \<inter> set (concat (map scope_ids gs)) = {}"
  proof (rule ccontr)
    assume "set (scope_ids g) \<inter> set (concat (map scope_ids gs)) \<noteq> {}"
    then obtain s g' where s: "s \<in> set (scope_ids g)" and g': "g' \<in> set gs"
      and s': "s \<in> set (scope_ids g')" by auto
    from Cons.prems(1) g' have ok: "group_ok c ambient g" and ok': "group_ok c ambient g'"
      by simp_all
    from ok obtain k where k: "0 \<le> k"
      "groupIncRef (group_cells g) = ''g'' @ number_toString k @ ''-''"
      by (rule group_ok_ref)
    from ok' obtain k' where k': "0 \<le> k'"
      "groupIncRef (group_cells g') = ''g'' @ number_toString k' @ ''-''"
      by (rule group_ok_ref)
    from scope_ids_prefix [OF ok s] obtain r where r: "s = groupId (group_published g) @ r" ..
    from scope_ids_prefix [OF ok' s'] obtain r' where r': "s = groupId (group_published g') @ r'" ..
    let ?p = "case ambient of None \<Rightarrow> [] | Some x \<Rightarrow> groupId x @ '':''"
    from r r' group_ok_published [OF ok] group_ok_published [OF ok'] k(2) k'(2)
    have "?p @ (''g'' @ number_toString k @ ''-'') @ (string_or_undefined (group_name g) @ r)
        = ?p @ (''g'' @ number_toString k' @ ''-'') @ (string_or_undefined (group_name g') @ r')"
      by simp
    with k(1) k'(1) have "k = k'" by (rule prefix_inj)
    with k(2) k'(2) have "groupIncRef (group_cells g) = groupIncRef (group_cells g')" by simp
    with Cons.prems(2) g' show False by force
  qed
  moreover from Cons have "distinct (concat (map scope_ids gs))" by simp
  moreover from Cons.prems(3) have "distinct (scope_ids g)" by simp
  ultimately show ?case by simp
qed

lemma scope_ids_distinct:
  assumes "group_ok c ambient g"
  shows "distinct (scope_ids g)"
  using assms
proof (induction g arbitrary: ambient)
  case (GroupInstance h n d pub nested)
  from GroupInstance.prems have ok: "\<forall>g \<in> set nested. group_ok c (Some pub) g"
    and dr: "distinct (map (\<lambda>g. groupIncRef (group_cells g)) nested)" by auto
  from ok GroupInstance.IH have "\<forall>g \<in> set nested. distinct (scope_ids g)" by blast
  with ok dr have "distinct (concat (map scope_ids nested))"
    by (intro scope_ids_siblings_distinct)
  moreover have "groupId pub \<notin> set (concat (map scope_ids nested))"
    using ok scope_ids_nested_longer by fastforce
  ultimately show ?case by simp
qed

lemma groups_ok_distinct:
  assumes "groups_ok c ambient gs"
  shows "distinct (concat (map scope_ids gs))"
  using assms unfolding groups_ok_def
  by (intro scope_ids_siblings_distinct) (auto intro: scope_ids_distinct)

lemma group_ok_mono:
  assumes "group_ok c ambient g" and "c \<le> c'"
  shows "group_ok c' ambient g"
  using assms
proof (induction g arbitrary: ambient)
  case (GroupInstance h n d pub nested)
  from GroupInstance.prems have "\<forall>g \<in> set nested. group_ok c (Some pub) g" by auto
  with GroupInstance.IH GroupInstance.prems(2)
  have "\<forall>g \<in> set nested. group_ok c' (Some pub) g" by blast
  moreover from GroupInstance.prems
  have "groupIncRef h \<in> (\<lambda>k. ''g'' @ number_toString k @ ''-'') ` {0..c'}" by auto
  ultimately show ?case using GroupInstance.prems(1) by auto
qed

lemma groups_ok_mono:
  "groups_ok c ambient gs \<Longrightarrow> c \<le> c' \<Longrightarrow> groups_ok c' ambient gs"
  unfolding groups_ok_def using group_ok_mono by blast

lemma evaluate_node:
  assumes r: "groupIncRef h \<in> (\<lambda>k. ''g'' @ number_toString k @ ''-'') ` {0..c}"
    and m: "memo_consistent h"
    and n: "\<And>c2 nested'. evaluate_groups (c + 1) (Some
              \<lparr>enabled = \<not> (d = Some True \<or> map_option enabled ambient = Some False),
               groupId = getGroupId (groupIncRef h) (ambient, n),
               incrementalCount = - 1\<rparr>) nested = (c2, nested') \<Longrightarrow>
            c + 1 \<le> c2 \<and> groups_ok c2 (Some
              \<lparr>enabled = \<not> (d = Some True \<or> map_option enabled ambient = Some False),
               groupId = getGroupId (groupIncRef h) (ambient, n),
               incrementalCount = - 1\<rparr>) nested'"
    and e: "evaluate_group c ambient (GroupInstance h n d pub nested) = (c', g')"
  shows "c \<le> c' \<and> group_ok c' ambient g' \<and> groupIncRef (group_cells g') = groupIncRef h"
proof -
  let ?cc = "\<lparr>enabled = \<not> (d = Some True \<or> map_option enabled ambient = Some False),
               groupId = getGroupId (groupIncRef h) (ambient, n),
               incrementalCount = - 1\<rparr>"
  obtain c2 nested' where k: "evaluate_groups (c + 1) (Some ?cc) nested = (c2, nested')"
    by (cases "evaluate_groups (c + 1) (Some ?cc) nested") auto
  from n [OF k] have c2: "c + 1 \<le> c2" and ok: "groups_ok c2 (Some ?cc) nested'" by simp_all
  from e k have c': "c' = c2"
    and g': "g' = GroupInstance
        \<lparr>groupIncRef = groupIncRef h, getGroupId_closure = (ambient, n),
         childContext_deps = (map_option enabled ambient, d, (ambient, n)),
         childContext_value = ?cc\<rparr> n d ?cc nested'"
    by (simp_all add: IncrementalGroup_again [OF m])
  from r c2 have "groupIncRef h \<in> (\<lambda>k. ''g'' @ number_toString k @ ''-'') ` {0..c2}" by auto
  with ok have "group_ok c2 ambient g'"
    unfolding g' groups_ok_def by (simp add: memo_consistent_def)
  with c2 c' g' show ?thesis by simp
qed

lemma evaluate_ok:
  "(\<forall>c' g' previous. evaluate_group c ambient g = (c', g') \<longrightarrow>
      groupIncRef (group_cells g) \<in> (\<lambda>k. ''g'' @ number_toString k @ ''-'') ` {0..c} \<longrightarrow>
      memo_consistent (group_cells g) \<longrightarrow>
      groups_ok c previous (group_nested g) \<longrightarrow>
      c \<le> c' \<and> group_ok c' ambient g'
        \<and> groupIncRef (group_cells g') = groupIncRef (group_cells g))"
  "(\<forall>c' gs' previous. evaluate_groups c ambient gs = (c', gs') \<longrightarrow>
      (\<forall>g \<in> set gs. group_ok c previous g) \<longrightarrow>
      c \<le> c' \<and> (\<forall>g \<in> set gs'. group_ok c' ambient g)
        \<and> map (\<lambda>g. groupIncRef (group_cells g)) gs'
            = map (\<lambda>g. groupIncRef (group_cells g)) gs)"
proof (induction c ambient g and c ambient gs rule: evaluate_group_evaluate_groups.induct)
  case (1 c ambient h n d pub nested)
  show ?case
  proof (intro allI impI)
    fix c' g' previous
    assume e: "evaluate_group c ambient (GroupInstance h n d pub nested) = (c', g')"
      and r: "groupIncRef (group_cells (GroupInstance h n d pub nested))
                \<in> (\<lambda>k. ''g'' @ number_toString k @ ''-'') ` {0..c}"
      and m: "memo_consistent (group_cells (GroupInstance h n d pub nested))"
      and k: "groups_ok c previous (group_nested (GroupInstance h n d pub nested))"
    let ?cc = "\<lparr>enabled = \<not> (d = Some True \<or> map_option enabled ambient = Some False),
               groupId = getGroupId (groupIncRef h) (ambient, n),
               incrementalCount = - 1\<rparr>"
    from m have m': "memo_consistent h" by simp
    have ih: "\<And>c2 nested'. evaluate_groups (c + 1) (Some ?cc) nested = (c2, nested') \<Longrightarrow>
            c + 1 \<le> c2 \<and> groups_ok c2 (Some ?cc) nested'"
    proof -
      fix c2 nested'
      assume q: "evaluate_groups (c + 1) (Some ?cc) nested = (c2, nested')"
      from k have "\<forall>g \<in> set nested. group_ok (c + 1) previous g"
        unfolding groups_ok_def using group_ok_mono [of c previous _ "c + 1"] by auto
      with "1.IH" [OF IncrementalGroup_again [OF m', of c n d ambient, symmetric] refl] q
      have "c + 1 \<le> c2" and "\<forall>g \<in> set nested'. group_ok c2 (Some ?cc) g"
        and "map (\<lambda>g. groupIncRef (group_cells g)) nested'
            = map (\<lambda>g. groupIncRef (group_cells g)) nested" by blast+
      with k show "c + 1 \<le> c2 \<and> groups_ok c2 (Some ?cc) nested'"
        unfolding groups_ok_def by simp
    qed
    from r have r': "groupIncRef h \<in> (\<lambda>k. ''g'' @ number_toString k @ ''-'') ` {0..c}" by simp
    from evaluate_node [OF r' m' ih e]
    show "c \<le> c' \<and> group_ok c' ambient g'
        \<and> groupIncRef (group_cells g') = groupIncRef (group_cells (GroupInstance h n d pub nested))"
      by simp
  qed
next
  case (2 c ambient)
  show ?case by simp
next
  case (3 c ambient g gs)
  show ?case
  proof (intro allI impI)
    fix c' gs' previous
    assume e: "evaluate_groups c ambient (g # gs) = (c', gs')"
      and ok: "\<forall>x \<in> set (g # gs). group_ok c previous x"
    obtain c1 g1 where e1: "evaluate_group c ambient g = (c1, g1)"
      by (cases "evaluate_group c ambient g") auto
    obtain c2 gs2 where e2: "evaluate_groups c1 ambient gs = (c2, gs2)"
      by (cases "evaluate_groups c1 ambient gs") auto
    from e e1 e2 have c': "c' = c2" and gs': "gs' = g1 # gs2" by simp_all
    from ok have g: "group_ok c previous g" by simp
    then have "groupIncRef (group_cells g) \<in> (\<lambda>k. ''g'' @ number_toString k @ ''-'') ` {0..c}"
      and "memo_consistent (group_cells g)"
      and "groups_ok c (Some (group_published g)) (group_nested g)"
      unfolding groups_ok_def by (cases g; auto)+
    with "3.IH"(1) e1 have 1: "c \<le> c1" "group_ok c1 ambient g1"
      "groupIncRef (group_cells g1) = groupIncRef (group_cells g)" by blast+
    from ok 1(1) have "\<forall>x \<in> set gs. group_ok c1 previous x"
      using group_ok_mono by auto
    with "3.IH"(2) [OF e1 [symmetric]] e2
    have 2: "c1 \<le> c2" "\<forall>x \<in> set gs2. group_ok c2 ambient x"
      "map (\<lambda>g. groupIncRef (group_cells g)) gs2 = map (\<lambda>g. groupIncRef (group_cells g)) gs"
      by blast+
    from 1(2) 2(1) have "group_ok c2 ambient g1" by (rule group_ok_mono)
    with 1 2 c' gs'
    show "c \<le> c' \<and> (\<forall>x \<in> set gs'. group_ok c' ambient x)
        \<and> map (\<lambda>g. groupIncRef (group_cells g)) gs'
            = map (\<lambda>g. groupIncRef (group_cells g)) (g # gs)"
      by simp
  qed
qed

lemma groups_ok_update:
  assumes ok: "groups_ok c ambient gs" and le: "c \<le> c'" and i: "i < length gs"
    and g': "group_ok c' ambient g'"
    and r: "groupIncRef (group_cells g') = groupIncRef (group_cells (gs ! i))"
  shows "groups_ok c' ambient (gs[i := g'])"
proof -
  from ok le have "\<forall>g \<in> set gs. group_ok c' ambient g"
    unfolding groups_ok_def using group_ok_mono by blast
  with g' have "\<forall>g \<in> set (gs[i := g']). group_ok c' ambient g"
    using set_update_subset_insert [of gs i g'] by auto
  moreover have "map (\<lambda>g. groupIncRef (group_cells g)) (gs[i := g'])
               = map (\<lambda>g. groupIncRef (group_cells g)) gs"
    using i r by (simp add: map_update list_update_same_conv)
  ultimately show ?thesis using ok unfolding groups_ok_def by simp
qed

lemma mount_group_ok:
  assumes c: "- 1 \<le> c" and ok: "groups_ok c ambient gs"
    and m: "mount_group n d ambient c gs = (c', gs')"
  shows "c \<le> c' \<and> groups_ok c' ambient gs'"
proof -
  let ?h = "\<lparr>groupIncRef = ''g'' @ number_toString (c + 1) @ ''-'',
       getGroupId_closure = (ambient, n),
       childContext_deps = (map_option enabled ambient, d, (ambient, n)),
       childContext_value =
         \<lparr>enabled = \<not> (d = Some True \<or> map_option enabled ambient = Some False),
          groupId = getGroupId (''g'' @ number_toString (c + 1) @ ''-'') (ambient, n),
          incrementalCount = - 1\<rparr>\<rparr>"
  let ?g = "GroupInstance ?h n d (childContext_value ?h) []"
  from m have c': "c' = c + 1" and gs': "gs' = gs @ [?g]"
    by (auto simp: mount_group_def IncrementalGroup_first)
  from c have "c + 1 \<in> {0..c + 1}" by simp
  then have "''g'' @ number_toString (c + 1) @ ''-''
      \<in> (\<lambda>k. ''g'' @ number_toString k @ ''-'') ` {0..c + 1}" by (rule imageI)
  then have new: "group_ok (c + 1) ambient ?g" by (simp add: memo_consistent_def)
  have fresh: "groupIncRef ?h \<notin> (\<lambda>g. groupIncRef (group_cells g)) ` set gs"
  proof
    assume "groupIncRef ?h \<in> (\<lambda>g. groupIncRef (group_cells g)) ` set gs"
    then obtain g where g: "g \<in> set gs" and e: "groupIncRef (group_cells g) = groupIncRef ?h"
      by auto
    from ok g have "group_ok c ambient g" by (simp add: groups_ok_def)
    then obtain k where k: "0 \<le> k" "k \<le> c"
      "groupIncRef (group_cells g) = ''g'' @ number_toString k @ ''-''"
      by (rule group_ok_ref)
    from k(3) e have "[] @ (''g'' @ number_toString k @ ''-'') @ []
        = [] @ (''g'' @ number_toString (c + 1) @ ''-'') @ []" by simp
    with k(1) c have "k = c + 1" by (intro prefix_inj) simp_all
    with k(2) show False by simp
  qed
  from ok have "\<forall>g \<in> set gs. group_ok (c + 1) ambient g"
    unfolding groups_ok_def using group_ok_mono [of c ambient _ "c + 1"] by auto
  with new fresh ok have "groups_ok (c + 1) ambient (gs @ [?g])"
    unfolding groups_ok_def by auto
  with c' gs' show ?thesis by simp
qed

lemma update_group_ok:
  assumes ok: "groups_ok c ambient gs"
    and u: "update_group i n d ambient c gs = (c', gs')"
  shows "c \<le> c' \<and> groups_ok c' ambient gs'"
proof (cases "i < length gs")
  case False
  with u ok show ?thesis by (simp add: update_group_def)
next
  case True
  let ?g = "GroupInstance (group_cells (gs ! i)) n d (group_published (gs ! i))
              (group_nested (gs ! i))"
  obtain c1 g1 where e: "evaluate_group c ambient ?g = (c1, g1)"
    by (cases "evaluate_group c ambient ?g") auto
  with u True have c': "c' = c1" and gs': "gs' = gs[i := g1]"
    by (simp_all add: update_group_def)
  from ok True have "group_ok c ambient (gs ! i)" by (simp add: groups_ok_def)
  then have "groupIncRef (group_cells ?g) \<in> (\<lambda>k. ''g'' @ number_toString k @ ''-'') ` {0..c}"
    and "memo_consistent (group_cells ?g)"
    and "groups_ok c (Some (group_published (gs ! i))) (group_nested ?g)"
    unfolding groups_ok_def by (cases "gs ! i"; auto)+
  with evaluate_ok(1) [of c ambient ?g] e
  have 1: "c \<le> c1" "group_ok c1 ambient g1"
    "groupIncRef (group_cells g1) = groupIncRef (group_cells ?g)" by blast+
  from 1(3) have "groupIncRef (group_cells g1) = groupIncRef (group_cells (gs ! i))" by simp
  with ok 1(1) True 1(2) have "groups_ok c1 ambient (gs[i := g1])"
    by (rule groups_ok_update)
  with 1(1) c' gs' show ?thesis by simp
qed

lemma at_path_ok:
  assumes f: "\<And>ambient c gs c' gs'. - 1 \<le> c \<Longrightarrow> groups_ok c ambient gs \<Longrightarrow>
                f ambient c gs = (c', gs') \<Longrightarrow> c \<le> c' \<and> groups_ok c' ambient gs'"
    and "- 1 \<le> c" and "groups_ok c ambient gs"
    and "at_path f ambient path c gs = (c', gs')"
  shows "c \<le> c' \<and> groups_ok c' ambient gs'"
  using assms(2-)
proof (induction path arbitrary: ambient gs c' gs')
  case Nil
  from Nil.prems(3) have "f ambient c gs = (c', gs')" by simp
  from f [OF Nil.prems(1,2) this] show ?case .
next
  case (Cons i path)
  show ?case
  proof (cases "i < length gs")
    case False
    with Cons.prems show ?thesis by simp
  next
    case True
    let ?g = "gs ! i"
    obtain c1 nested' where a: "at_path f (Some (group_published ?g)) path c (group_nested ?g)
        = (c1, nested')"
      by (cases "at_path f (Some (group_published ?g)) path c (group_nested ?g)") auto
    let ?g' = "GroupInstance (group_cells ?g) (group_name ?g) (group_disabled ?g)
                 (group_published ?g) nested'"
    from Cons.prems(3) True a have c': "c' = c1" and gs': "gs' = gs[i := ?g']" by simp_all
    from Cons.prems(2) True have g: "group_ok c ambient ?g" by (simp add: groups_ok_def)
    then have "groups_ok c (Some (group_published ?g)) (group_nested ?g)"
      unfolding groups_ok_def by (cases ?g) auto
    from Cons.IH [OF Cons.prems(1) this a]
    have 1: "c \<le> c1" "groups_ok c1 (Some (group_published ?g)) nested'" by simp_all
    from g 1(1) have "group_ok c1 ambient ?g" by (rule group_ok_mono)
    with 1(2) have "group_ok c1 ambient ?g'"
      unfolding groups_ok_def by (cases ?g) auto
    with Cons.prems(2) 1(1) True have "groups_ok c1 ambient (gs[i := ?g'])"
      by (rule groups_ok_update) simp
    with 1(1) c' gs' show ?thesis by simp
  qed
qed

lemma group_step_ok:
  assumes "- 1 \<le> c" and "groups_ok c None gs" and "group_step (c, gs) e = (c', gs')"
  shows "- 1 \<le> c' \<and> groups_ok c' None gs'"
proof (cases e)
  case (MountGroup path n d)
  with assms(3) have "at_path (mount_group n d) None path c gs = (c', gs')" by simp
  from at_path_ok [of "mount_group n d", OF _ assms(1,2) this] mount_group_ok
  have "c \<le> c' \<and> groups_ok c' None gs'" by blast
  with assms(1) show ?thesis by simp
next
  case (UpdateGroup path i n d)
  with assms(3) have "at_path (update_group i n d) None path c gs = (c', gs')" by simp
  from at_path_ok [of "update_group i n d", OF _ assms(1,2) this] update_group_ok
  have "c \<le> c' \<and> groups_ok c' None gs'" by blast
  with assms(1) show ?thesis by simp
qed

lemma process_ok:
  "- 1 \<le> fst (process events) \<and> groups_ok (fst (process events)) None (snd (process events))"
proof (induction events rule: rev_induct)
  case Nil
  show ?case by (simp add: process_def groups_ok_def)
next
  case (snoc e events)
  have "process (events @ [e]) = group_step (fst (process events), snd (process events)) e"
    by (simp add: process_def)
  with snoc group_step_ok [of "fst (process events)" "snd (process events)" e
      "fst (process (events @ [e]))" "snd (process (events @ [e]))"]
  show ?case by simp
qed

text \<open>
  C8. In a process that starts with the counter at -1 and mounts groups one after the
  other, at the top level or nested in groups mounted before, with any names (also the
  same name for siblings) and any re-evaluations with changed props in between, the
  scope ids published by all the group instances are pairwise distinct at every moment.
  Every evaluation of a group, the first or a later one, leaves the counter one higher
  than it found it, and a later evaluation keeps the prefix the instance took at its
  first one.
\<close>

theorem scope_ids_unique:
  "distinct (concat (map scope_ids (snd (process events))))
   \<and> fst (IncrementalGroup groupCounter name disabled context cells) = groupCounter + 1
   \<and> groupIncRef (fst (snd (IncrementalGroup groupCounter name disabled context (Some h))))
       = groupIncRef h"
proof -
  from process_ok [of events] have "distinct (concat (map scope_ids (snd (process events))))"
    by (intro groups_ok_distinct) blast
  then show ?thesis by (simp add: IncrementalGroup_def Let_def)
qed

theorem scope_ids_unique_witness:
  "concat (map scope_ids (snd (process
      [MountGroup [] (Some ''list'') None, MountGroup [0] (Some ''row'') None,
       MountGroup [0] (Some ''row'') None])))
     = [''g0-list'', ''g0-list:g1-row'', ''g0-list:g2-row'']
   \<and> distinct (concat (map scope_ids (snd (process
      [MountGroup [] (Some ''list'') None, MountGroup [0] (Some ''row'') None,
       MountGroup [0] (Some ''row'') None]))))"
proof -
  have "concat (map scope_ids (snd (process
      [MountGroup [] (Some ''list'') None, MountGroup [0] (Some ''row'') None,
       MountGroup [0] (Some ''row'') None])))
     = [''g0-list'', ''g0-list:g1-row'', ''g0-list:g2-row'']"
    by code_simp
  moreover from scope_ids_unique [of "[MountGroup [] (Some ''list'') None,
       MountGroup [0] (Some ''row'') None, MountGroup [0] (Some ''row'') None]"]
  have "distinct (concat (map scope_ids (snd (process
      [MountGroup [] (Some ''list'') None, MountGroup [0] (Some ''row'') None,
       MountGroup [0] (Some ''row'') None]))))" by (rule conjunct1)
  ultimately show ?thesis by blast
qed

end
